theory Spec2Isabelle
  imports Complex_Main
begin

section \<open>Common data: exceptions, images, HTTP responses\<close>

text \<open>
  Both programs fetch one JPEG over HTTP and decode it. The HTTP client (requests), the
  decoder and the resizer (cv2) are collaborators: what they return is an input of the
  model. Python floats are idealised as rationals.
\<close>

datatype exn =
    ConnectionError | Timeout | HTTPError
  | CvError | ValueError | ZeroDivisionError | Empty | Full

text \<open>The classes caught by \<^verbatim>\<open>except requests.RequestException\<close>.\<close>

fun is_RequestException :: "exn \<Rightarrow> bool" where
  "is_RequestException ConnectionError = True"
| "is_RequestException Timeout = True"
| "is_RequestException HTTPError = True"
| "is_RequestException _ = False"

type_synonym bytes = "nat list"

text \<open>A decoded image: numpy shape (rows, cols, 3) and its pixel data.\<close>

datatype image = Image (rows: nat) (cols: nat) (pixels: bytes)

datatype response = Response (status_code: nat) (content: bytes)

definition raise_for_status :: "response \<Rightarrow> exn + unit" where
  "raise_for_status r =
     (if 400 \<le> status_code r \<and> status_code r < 600 then Inl HTTPError else Inr ())"

section \<open>esp32_capture_to_video.py\<close>

subsection \<open>pick_fourcc\<close>

text \<open>
  str.lower on the ASCII letters, as a table. Bytes outside A-Z are left alone: no
  non-ASCII character lower-cases to a letter of the four keywords compared below.
\<close>

definition lower_char :: "char \<Rightarrow> char" where
  "lower_char c =
     (case map_of (zip ''ABCDEFGHIJKLMNOPQRSTUVWXYZ'' ''abcdefghijklmnopqrstuvwxyz'') c of
        None \<Rightarrow> c | Some d \<Rightarrow> d)"

definition upper_char :: "char \<Rightarrow> char" where
  "upper_char c =
     (case map_of (zip ''abcdefghijklmnopqrstuvwxyz'' ''ABCDEFGHIJKLMNOPQRSTUVWXYZ'') c of
        None \<Rightarrow> c | Some d \<Rightarrow> d)"

definition lower :: "string \<Rightarrow> string" where
  "lower s = map lower_char s"

text \<open>cv2.VideoWriter\_fourcc packs four characters, little end first.\<close>

definition VideoWriter_fourcc :: "char \<Rightarrow> char \<Rightarrow> char \<Rightarrow> char \<Rightarrow> int" where
  "VideoWriter_fourcc c1 c2 c3 c4 =
     of_char c1 + 256 * of_char c2 + 65536 * of_char c3 + 16777216 * of_char c4"

definition pick_fourcc :: "string \<Rightarrow> int" where
  "pick_fourcc codec0 =
     (let codec = lower codec0 in
      if codec = ''mp4v'' then VideoWriter_fourcc CHR ''m'' CHR ''p'' CHR ''4'' CHR ''v''
      else if codec = ''xvid'' then VideoWriter_fourcc CHR ''X'' CHR ''V'' CHR ''I'' CHR ''D''
      else if codec = ''mjpg'' \<or> codec = ''mjpeg''
        then VideoWriter_fourcc CHR ''M'' CHR ''J'' CHR ''P'' CHR ''G''
      else VideoWriter_fourcc CHR ''m'' CHR ''p'' CHR ''4'' CHR ''v'')"

text \<open>
  A string is a letter-case variant of a lower-case keyword when it has the keyword's
  length and each character is the keyword's or its upper-case form.
\<close>

definition case_variant :: "string \<Rightarrow> string \<Rightarrow> bool" where
  "case_variant s k = list_all2 (\<lambda>c d. c = d \<or> c = upper_char d) s k"

subsection \<open>fetch_jpeg\<close>

text \<open>
  One call of fetch_jpeg sees what requests.get does (it raises, or it returns a response)
  and what cv2.imdecode does to the body (it raises, or returns None or an image).
\<close>

type_synonym http = "exn + response"
type_synonym decoder = "bytes \<Rightarrow> exn + image option"

text \<open>The body of the try statement, lines 14 to 20.\<close>

definition fetch_jpeg_try :: "http \<Rightarrow> decoder \<Rightarrow> exn + image option" where
  "fetch_jpeg_try got imdecode =
     (case got of
        Inl e \<Rightarrow> Inl e
      | Inr r \<Rightarrow>
          (case raise_for_status r of
             Inl e \<Rightarrow> Inl e
           | Inr _ \<Rightarrow>
               (case imdecode (content r) of
                  Inl e \<Rightarrow> Inl e
                | Inr None \<Rightarrow> Inr None
                | Inr (Some frame) \<Rightarrow> Inr (Some frame))))"

text \<open>The handler catches requests.RequestException only; anything else leaves the function.\<close>

definition fetch_jpeg :: "http \<Rightarrow> decoder \<Rightarrow> exn + image option" where
  "fetch_jpeg got imdecode =
     (case fetch_jpeg_try got imdecode of
        Inl e \<Rightarrow> (if is_RequestException e then Inr None else Inl e)
      | Inr v \<Rightarrow> Inr v)"

subsection \<open>main: arguments, collaborators, effects\<close>

text \<open>
  The option --resize is taken as lines 57 to 63 classify it: empty, not of the form WxH,
  or two integers. The suffix of the output path is taken as pathlib computes it.
\<close>

datatype resize_arg = NoResize | Malformed | WxH int int

record args =
  url :: string
  fps :: rat
  seconds :: rat
  out :: string
  out_suffix :: string
  codec :: string
  timeout :: rat
  resize :: resize_arg
  verbose :: bool

text \<open>
  The collaborators of one session: the k-th call of requests.get (k = 0 is the pre-fetch,
  k = i the fetch of tick i), the decoder, the pixel data INTER_LINEAR produces, whether the
  writer opened, and the clock (reading 0 is start, reading i is line 119 of tick i).
  Among the effects, Fetch k is the k-th call of fetch_jpeg.
\<close>

record world =
  requests_get :: "string \<Rightarrow> rat \<Rightarrow> nat \<Rightarrow> http"
  imdecode :: decoder
  interp :: "image \<Rightarrow> int \<times> int \<Rightarrow> bytes"
  isOpened :: bool
  perf_counter :: "nat \<Rightarrow> rat"

datatype diag =
    FetchingFirst | ErrFirstFrame | ErrResize | NoteAvi | ErrOpen
  | Writing int | FetchFailed nat | FetchOk nat | Done int

datatype effect =
    Print diag
  | Fetch nat
  | VideoWriter string int rat "int \<times> int"
  | Write image
  | Release
  | Sleep rat

text \<open>The call fetch_jpeg(args.url, timeout=args.timeout) made for tick i.\<close>

definition fetch_at :: "args \<Rightarrow> world \<Rightarrow> nat \<Rightarrow> exn + image option" where
  "fetch_at a w i = fetch_jpeg (requests_get w (url a) (timeout a) i) (imdecode w)"

text \<open>
  cv2.resize gives an image of the requested size, or raises: on an empty size, on a size
  that does not fit a C int, or on an empty source.
\<close>

definition cv2_resize :: "(image \<Rightarrow> int \<times> int \<Rightarrow> bytes) \<Rightarrow> image \<Rightarrow> int \<times> int \<Rightarrow> exn + image" where
  "cv2_resize ip src dsize =
     (case dsize of (w, h) \<Rightarrow>
        if w \<le> 0 \<or> h \<le> 0 \<or> 2147483647 < w \<or> 2147483647 < h \<or>
           rows src = 0 \<or> cols src = 0
        then Inl CvError
        else Inr (Image (nat h) (nat w) (ip src dsize)))"

text \<open>
  Python's round on a float: to the nearest integer, a tie to the even one. The product
  seconds * fps of line 84 is taken exactly here, where the code rounds it to a float
  before rounding it to an integer.
\<close>

definition py_round :: "rat \<Rightarrow> int" where
  "py_round x =
     (let f = \<lfloor>x\<rfloor>; d = x - of_int f in
      if d < 1 / 2 then f else if 1 / 2 < d then f + 1 else if even f then f else f + 1)"

definition total_frames :: "args \<Rightarrow> int" where
  "total_frames a = py_round (seconds a * fps a)"

datatype 'a step = Raise exn | Return | Go 'a

text \<open>Lines 57 to 69: the output size and the first frame to write.\<close>

definition output_size :: "args \<Rightarrow> world \<Rightarrow> image \<Rightarrow> ((int \<times> int) \<times> image) step" where
  "output_size a w first =
     (case resize a of
        NoResize \<Rightarrow> Go ((int (cols first), int (rows first)), first)
      | Malformed \<Rightarrow> Return
      | WxH out_w out_h \<Rightarrow>
          (case cv2_resize (interp w) first (out_w, out_h) of
             Inl e \<Rightarrow> Raise e
           | Inr frame_to_write \<Rightarrow> Go ((out_w, out_h), frame_to_write)))"

subsection \<open>main: the timing loop\<close>

record sched =
  next_tick :: rat
  last_good :: image

definition sleep_until :: "world \<Rightarrow> nat \<Rightarrow> rat \<Rightarrow> effect list" where
  "sleep_until w i nt =
     (let sleep_s = nt - perf_counter w i in if 0 < sleep_s then [Sleep sleep_s] else [])"

text \<open>Lines 107 and 108: a frame of another size is resized to the output size.\<close>

definition fit_frame :: "world \<Rightarrow> int \<times> int \<Rightarrow> image \<Rightarrow> exn + image" where
  "fit_frame w frame_size frame =
     (if frame_size \<noteq> (int (cols frame), int (rows frame))
      then cv2_resize (interp w) frame frame_size else Inr frame)"

text \<open>One pass of the loop body, lines 96 to 123, for tick i.\<close>

definition tick :: "args \<Rightarrow> world \<Rightarrow> int \<times> int \<Rightarrow> nat \<Rightarrow> sched \<Rightarrow> effect list \<times> (exn + sched)" where
  "tick a w frame_size i s =
     (if fps a = 0 then ([], Inl ZeroDivisionError)
      else
        let nt = next_tick s + 1 / fps a in
        case fetch_at a w i of
          Inl e \<Rightarrow> ([Fetch i], Inl e)
        | Inr None \<Rightarrow>
            ([Fetch i] @ (if verbose a then [Print (FetchFailed i)] else []) @
               [Write (last_good s)] @ sleep_until w i nt,
             Inr \<lparr>next_tick = nt, last_good = last_good s\<rparr>)
        | Inr (Some frame) \<Rightarrow>
            (case fit_frame w frame_size frame of
               Inl e \<Rightarrow> ([Fetch i], Inl e)
             | Inr frame_to_write \<Rightarrow>
                 ([Fetch i] @ (if verbose a then [Print (FetchOk i)] else []) @
                    [Write frame_to_write] @ sleep_until w i nt,
                  Inr \<lparr>next_tick = nt, last_good = frame_to_write\<rparr>)))"

text \<open>The for loop over range(1, total_frames); an exception ends it.\<close>

fun ticks :: "args \<Rightarrow> world \<Rightarrow> int \<times> int \<Rightarrow> nat list \<Rightarrow> sched \<Rightarrow> effect list \<times> (exn + sched)" where
  "ticks a w frame_size [] s = ([], Inr s)"
| "ticks a w frame_size (i # is) s =
     (case tick a w frame_size i s of
        (tr, Inl e) \<Rightarrow> (tr, Inl e)
      | (tr, Inr s') \<Rightarrow>
          (case ticks a w frame_size is s' of (tr', r) \<Rightarrow> (tr @ tr', r)))"

text \<open>
  main returns what it did, in order, and the exception that ended it, if one did.
\<close>

definition main :: "args \<Rightarrow> world \<Rightarrow> effect list \<times> exn option" where
  "main a w =
     (case fetch_at a w 0 of
        Inl e \<Rightarrow> ([Print FetchingFirst, Fetch 0], Some e)
      | Inr None \<Rightarrow> ([Print FetchingFirst, Fetch 0, Print ErrFirstFrame], None)
      | Inr (Some first) \<Rightarrow>
          (case output_size a w first of
             Raise e \<Rightarrow> ([Print FetchingFirst, Fetch 0], Some e)
           | Return \<Rightarrow> ([Print FetchingFirst, Fetch 0, Print ErrResize], None)
           | Go (frame_size, frame_to_write) \<Rightarrow>
               let fourcc = pick_fourcc (codec a);
                   tr1 = [Print FetchingFirst, Fetch 0] @
                     (if (codec a = ''mjpg'' \<or> codec a = ''xvid'') \<and> lower (out_suffix a) \<noteq> ''.avi''
                      then [Print NoteAvi] else []) @
                     [VideoWriter (out a) fourcc (fps a) frame_size]
               in
               if \<not> isOpened w then (tr1 @ [Print ErrOpen], None)
               else
                 let n = total_frames a;
                     start = perf_counter w 0;
                     tr2 = tr1 @ [Print (Writing n), Write frame_to_write]
                 in
                 (case ticks a w frame_size [1 ..< nat n]
                         \<lparr>next_tick = start, last_good = frame_to_write\<rparr> of
                    (tr3, Inl e) \<Rightarrow> (tr2 @ tr3, Some e)
                  | (tr3, Inr _) \<Rightarrow> (tr2 @ tr3 @ [Release, Print (Done n)], None))))"

text \<open>The frames handed to writer.write, in order.\<close>

fun written :: "effect list \<Rightarrow> image list" where
  "written [] = []"
| "written (Write img # tr) = img # written tr"
| "written (_ # tr) = written tr"

text \<open>The frame sizes given to cv2.VideoWriter, in order.\<close>

fun writer_sizes :: "effect list \<Rightarrow> (int \<times> int) list" where
  "writer_sizes [] = []"
| "writer_sizes (VideoWriter p c f fs # tr) = fs # writer_sizes tr"
| "writer_sizes (_ # tr) = writer_sizes tr"

text \<open>Width and height of an image, as line 107 reads them.\<close>

definition dims :: "image \<Rightarrow> int \<times> int" where
  "dims img = (int (cols img), int (rows img))"

section \<open>Esp32/fast_ipcam_still_stream.py\<close>

subsection \<open>queue.Queue, as one thread sees it\<close>

record 'a py_queue =
  maxsize :: int
  items :: "'a list"

definition Queue :: "int \<Rightarrow> 'a py_queue" where
  "Queue m = \<lparr>maxsize = m, items = []\<rparr>"

definition get_nowait :: "'a py_queue \<Rightarrow> exn + 'a \<times> 'a py_queue" where
  "get_nowait q =
     (case items q of [] \<Rightarrow> Inl Empty | x # xs \<Rightarrow> Inr (x, q\<lparr>items := xs\<rparr>))"

definition put_nowait :: "'a py_queue \<Rightarrow> 'a \<Rightarrow> exn + 'a py_queue" where
  "put_nowait q x =
     (if 0 < maxsize q \<and> maxsize q \<le> int (length (items q)) then Inl Full
      else Inr (q\<lparr>items := items q @ [x]\<rparr>))"

text \<open>
  Lines 90 to 94 of main: q.get(timeout=0.2), with queue.Empty turned into None. When no
  put arrives during the wait the result is that of get_nowait.
\<close>

definition get_or_none :: "'a py_queue \<Rightarrow> 'a option \<times> 'a py_queue" where
  "get_or_none q = (case get_nowait q of Inl _ \<Rightarrow> (None, q) | Inr (x, q') \<Rightarrow> (Some x, q'))"

text \<open>Lines 53 to 58: get_nowait until queue.Empty, which alone is caught.\<close>

function drain :: "'a py_queue \<Rightarrow> exn + 'a py_queue" where
  "drain q =
     (case get_nowait q of
        Inl e \<Rightarrow> (if e = Empty then Inr q else Inl e)
      | Inr (x, q') \<Rightarrow> drain q')"
  by pat_completeness auto
termination
  by (relation "measure (\<lambda>q. length (items q))")
     (auto simp: get_nowait_def split: list.splits)

declare drain.simps [simp del]

text \<open>
  Lines 53 to 59: drain, then put_nowait. The result is the exception raised, if any, and
  the queue as it is left.
\<close>

definition publish :: "'a py_queue \<Rightarrow> 'a \<Rightarrow> exn option \<times> 'a py_queue" where
  "publish q frame =
     (case drain q of
        Inl e \<Rightarrow> (Some e, q)
      | Inr q' \<Rightarrow> (case put_nowait q' frame of Inl e \<Rightarrow> (Some e, q') | Inr q'' \<Rightarrow> (None, q'')))"

text \<open>Successive publications with no get in between; an exception ends them.\<close>

fun puts :: "'a py_queue \<Rightarrow> 'a list \<Rightarrow> exn option \<times> 'a py_queue" where
  "puts q [] = (None, q)"
| "puts q (v # vs) =
     (case publish q v of
        (Some e, q') \<Rightarrow> (Some e, q')
      | (None, q') \<Rightarrow> puts q' vs)"

subsection \<open>fetcher\<close>

definition py_div :: "rat \<Rightarrow> rat \<Rightarrow> exn + rat" where
  "py_div x y = (if y = 0 then Inl ZeroDivisionError else Inr (x / y))"

text \<open>Line 32.\<close>

definition fetcher_period :: "rat \<Rightarrow> exn + rat" where
  "fetcher_period target_fps = py_div 1 (max (1 / 10) target_fps)"

text \<open>Lines 45 to 50: get, raise_for_status, decode; a None from the decoder is raised.\<close>

definition fetch_decode :: "http \<Rightarrow> decoder \<Rightarrow> exn + image" where
  "fetch_decode g dec =
     (case g of
        Inl e \<Rightarrow> Inl e
      | Inr r \<Rightarrow>
          (case raise_for_status r of
             Inl e \<Rightarrow> Inl e
           | Inr _ \<Rightarrow>
               (case dec (content r) of
                  Inl e \<Rightarrow> Inl e
                | Inr None \<Rightarrow> Inl ValueError
                | Inr (Some frame) \<Rightarrow> Inr frame)))"

record fetcher_state =
  t_next :: rat
  backoff :: rat
  out_q :: "image py_queue"

text \<open>
  What one pass of the while loop observes: the stop event, the clock at line 37, and what
  session.get does if the pass gets that far.
\<close>

record obs =
  is_set :: bool
  now :: rat
  got :: http

text \<open>
  What a pass does: the sleep of line 40, the request of line 45 (tagged with the clock
  reading of its pass), the sleep of line 64.
\<close>

datatype poll_effect = Pace rat | Get rat | Backoff rat

text \<open>
  The body of the while loop, lines 37 to 64; except Exception catches everything. The
  sums of lines 42 and 63 are exact here, where the code rounds each to a float.
\<close>

definition pass :: "decoder \<Rightarrow> rat \<Rightarrow> fetcher_state \<Rightarrow> obs \<Rightarrow> poll_effect list \<times> fetcher_state" where
  "pass dec period s ob =
     (if now ob < t_next s then ([Pace (min (2 / 1000) (t_next s - now ob))], s)
      else
        let s1 = s\<lparr>t_next := t_next s + period\<rparr>;
            (raised, q) =
              (case fetch_decode (got ob) dec of
                 Inl e \<Rightarrow> (Some e, out_q s1)
               | Inr frame \<Rightarrow> publish (out_q s1) frame)
        in
        case raised of
          None \<Rightarrow> ([Get (now ob)], s1\<lparr>out_q := q, backoff := 0\<rparr>)
        | Some e \<Rightarrow>
            (let b = min (1 / 2) (backoff s1 + 1 / 20)
             in ([Get (now ob), Backoff b], s1\<lparr>out_q := q, backoff := b\<rparr>)))"

text \<open>
  The while loop over the passes observed so far: it ends when the stop event is set; the
  empty list is a loop still running.
\<close>

fun fetcher_loop :: "decoder \<Rightarrow> rat \<Rightarrow> fetcher_state \<Rightarrow> obs list \<Rightarrow> poll_effect list \<times> fetcher_state" where
  "fetcher_loop dec period s [] = ([], s)"
| "fetcher_loop dec period s (ob # obs) =
     (if is_set ob then ([], s)
      else
        case pass dec period s ob of
          (tr, s') \<Rightarrow> (case fetcher_loop dec period s' obs of (tr', s'') \<Rightarrow> (tr @ tr', s'')))"

text \<open>fetcher, with t0 the clock reading of line 33.\<close>

definition fetcher :: "decoder \<Rightarrow> rat \<Rightarrow> rat \<Rightarrow> image py_queue \<Rightarrow> obs list \<Rightarrow> exn + poll_effect list \<times> fetcher_state" where
  "fetcher dec target_fps t0 q obs =
     (case fetcher_period target_fps of
        Inl e \<Rightarrow> Inl e
      | Inr period \<Rightarrow> Inr (fetcher_loop dec period \<lparr>t_next = t0, backoff = 0, out_q = q\<rparr> obs))"

text \<open>The clock readings of the requests, and the sleeps of line 64, in order.\<close>

fun fetch_times :: "poll_effect list \<Rightarrow> rat list" where
  "fetch_times [] = []"
| "fetch_times (Get t # tr) = t # fetch_times tr"
| "fetch_times (_ # tr) = fetch_times tr"

fun delays :: "poll_effect list \<Rightarrow> rat list" where
  "delays [] = []"
| "delays (Backoff d # tr) = d # delays tr"
| "delays (_ # tr) = delays tr"

text \<open>The number of requests whose clock reading lies in the window from lo to hi.\<close>

definition attempts_in :: "poll_effect list \<Rightarrow> rat \<Rightarrow> rat \<Rightarrow> nat" where
  "attempts_in tr lo hi = length (filter (\<lambda>t. lo \<le> t \<and> t \<le> hi) (fetch_times tr))"

section \<open>Sample inputs\<close>

definition frame_A :: image where
  "frame_A = Image 2 2 [10, 10, 10, 10]"

definition frame_B :: image where
  "frame_B = Image 2 2 [20, 20, 20, 20]"

definition frame_B4 :: image where
  "frame_B4 = Image 4 4 (replicate 16 20)"

text \<open>
  A decoder that knows three bodies, returns None on any other and raises on the empty
  one; a resizer that fills with zeros; a clock that reads k at reading k.
\<close>

definition sample_decoder :: decoder where
  "sample_decoder body =
     (if body = [] then Inl CvError
      else if body = [1] then Inr (Some frame_A)
      else if body = [2] then Inr (Some frame_B)
      else if body = [3] then Inr (Some frame_B4)
      else Inr None)"

definition sample_world :: "(nat \<Rightarrow> http) \<Rightarrow> world" where
  "sample_world g =
     \<lparr>requests_get = (\<lambda>u t k. g k), imdecode = sample_decoder,
      interp = (\<lambda>src dsize. replicate (nat (fst dsize * snd dsize)) 0),
      isOpened = True, perf_counter = (\<lambda>k. of_nat k)\<rparr>"

definition sample_args :: "rat \<Rightarrow> rat \<Rightarrow> args" where
  "sample_args f d =
     \<lparr>url = ''http://192.168.4.1/capture.jpg'', fps = f, seconds = d, out = ''capture.mp4'',
      out_suffix = ''.mp4'', codec = ''mp4v'', timeout = 3 / 2, resize = NoResize,
      verbose = False\<rparr>"

text \<open>Fetches of ticks 0 to 3: a success, two timeouts, then a success with the body given.\<close>

definition freeze_gets :: "bytes \<Rightarrow> nat \<Rightarrow> http" where
  "freeze_gets body k =
     (if k = 0 then Inr (Response 200 [1])
      else if k = 3 then Inr (Response 200 body)
      else Inl Timeout)"

definition sample_obs :: "rat \<Rightarrow> http \<Rightarrow> obs" where
  "sample_obs t g = \<lparr>is_set = False, now = t, got = g\<rparr>"

section \<open>Facts about pick_fourcc\<close>

lemma lower_char_keyword_letter:
  "d \<in> set ''mp4vxidjge'' \<Longrightarrow> (lower_char c = d) = (c = d \<or> c = upper_char d)"
  by (simp add: upper_char_def, elim disjE; simp add: lower_char_def; fastforce)

lemma case_variant_iff_lower:
  "set k \<subseteq> set ''mp4vxidjge'' \<Longrightarrow> case_variant s k = (lower s = k)"
proof (induction k arbitrary: s)
  case Nil
  show ?case by (simp add: case_variant_def lower_def)
next
  case (Cons d k)
  have d: "d \<in> set ''mp4vxidjge''" using Cons.prems by simp
  have k: "set k \<subseteq> set ''mp4vxidjge''" using Cons.prems by simp
  have ih: "\<And>t. list_all2 (\<lambda>c d. c = d \<or> c = upper_char d) t k = (map lower_char t = k)"
    using Cons.IH [OF k] by (simp add: case_variant_def lower_def)
  show ?case
    unfolding case_variant_def lower_def list_all2_Cons2 map_eq_Cons_conv
    using lower_char_keyword_letter [OF d] ih by blast
qed

lemma fourcc_values:
  "VideoWriter_fourcc CHR ''m'' CHR ''p'' CHR ''4'' CHR ''v'' = 1983148141"
  "VideoWriter_fourcc CHR ''X'' CHR ''V'' CHR ''I'' CHR ''D'' = 1145656920"
  "VideoWriter_fourcc CHR ''M'' CHR ''J'' CHR ''P'' CHR ''G'' = 1196444237"
  by (simp_all add: VideoWriter_fourcc_def)

text \<open>
  C10. pick_fourcc returns a code for every string. Any letter-case variant of mp4v, xvid,
  mjpg or mjpeg gets the code of mp4v, XVID, MJPG and MJPG respectively, and every string
  that is no variant of xvid, mjpg or mjpeg gets the code of mp4v.
\<close>

theorem pick_fourcc_total_case_insensitive:
  "(case_variant cname ''mp4v'' \<longrightarrow>
      pick_fourcc cname = VideoWriter_fourcc CHR ''m'' CHR ''p'' CHR ''4'' CHR ''v'') \<and>
   (case_variant cname ''xvid'' \<longrightarrow>
      pick_fourcc cname = VideoWriter_fourcc CHR ''X'' CHR ''V'' CHR ''I'' CHR ''D'') \<and>
   (case_variant cname ''mjpg'' \<or> case_variant cname ''mjpeg'' \<longrightarrow>
      pick_fourcc cname = VideoWriter_fourcc CHR ''M'' CHR ''J'' CHR ''P'' CHR ''G'') \<and>
   (\<not> case_variant cname ''xvid'' \<and> \<not> case_variant cname ''mjpg'' \<and>
    \<not> case_variant cname ''mjpeg'' \<longrightarrow>
      pick_fourcc cname = VideoWriter_fourcc CHR ''m'' CHR ''p'' CHR ''4'' CHR ''v'')"
proof -
  have "case_variant cname ''mp4v'' = (lower cname = ''mp4v'')"
       "case_variant cname ''xvid'' = (lower cname = ''xvid'')"
       "case_variant cname ''mjpg'' = (lower cname = ''mjpg'')"
       "case_variant cname ''mjpeg'' = (lower cname = ''mjpeg'')"
    by (rule case_variant_iff_lower, simp)+
  then show ?thesis
    by (auto simp: pick_fourcc_def Let_def)
qed

theorem pick_fourcc_witness:
  "pick_fourcc ''MP4v'' = 1983148141 \<and> pick_fourcc ''XviD'' = 1145656920 \<and>
   pick_fourcc ''MJPG'' = 1196444237 \<and> pick_fourcc ''mJpEg'' = 1196444237 \<and>
   pick_fourcc ''h264'' = 1983148141 \<and> pick_fourcc [] = 1983148141"
  using pick_fourcc_total_case_insensitive [of "''MP4v''"]
    pick_fourcc_total_case_insensitive [of "''XviD''"]
    pick_fourcc_total_case_insensitive [of "''MJPG''"]
    pick_fourcc_total_case_insensitive [of "''mJpEg''"]
    pick_fourcc_total_case_insensitive [of "''h264''"]
    pick_fourcc_total_case_insensitive [of "[]"]
  by (simp add: case_variant_def upper_char_def fourcc_values)

section \<open>Facts about fetch_jpeg\<close>

lemma fetch_jpeg_cases:
  "fetch_jpeg g dec =
     (case g of
        Inl e \<Rightarrow> if is_RequestException e then Inr None else Inl e
      | Inr r \<Rightarrow>
          if 400 \<le> status_code r \<and> status_code r < 600 then Inr None
          else (case dec (content r) of
                  Inl e \<Rightarrow> if is_RequestException e then Inr None else Inl e
                | Inr v \<Rightarrow> Inr v))"
  by (simp add: fetch_jpeg_def fetch_jpeg_try_def raise_for_status_def
      split: sum.splits option.splits)

text \<open>
  C3. The claim asks that fetch_jpeg returns None whatever the collaborators do, an
  exception of the decoder included. On a response with status 200 whose body makes
  cv2.imdecode raise cv2.error, fetch_jpeg does not return: the exception leaves it.
\<close>

theorem fetch_jpeg_decode_exception_escapes:
  "fetch_jpeg (Inr (Response 200 [])) (\<lambda>body. Inl CvError) = Inl CvError"
  by (simp add: fetch_jpeg_def fetch_jpeg_try_def raise_for_status_def)

section \<open>Facts about the queue\<close>

lemma drain_empties: "drain q = Inr (q\<lparr>items := []\<rparr>)"
proof (induction q rule: drain.induct)
  case (1 q)
  show ?case
  proof (cases "items q")
    case Nil
    then show ?thesis by (subst drain.simps) (simp add: get_nowait_def)
  next
    case (Cons x xs)
    then have "get_nowait q = Inr (x, q\<lparr>items := xs\<rparr>)" by (simp add: get_nowait_def)
    with "1.IH" [of "(x, q\<lparr>items := xs\<rparr>)" x "q\<lparr>items := xs\<rparr>"] show ?thesis
      by (subst drain.simps) simp
  qed
qed

lemma publish_replaces: "publish q v = (None, q\<lparr>items := [v]\<rparr>)"
  by (simp add: publish_def drain_empties put_nowait_def)

lemma puts_last: "vs \<noteq> [] \<Longrightarrow> puts q vs = (None, q\<lparr>items := [last vs]\<rparr>)"
proof (induction vs arbitrary: q)
  case Nil
  then show ?case by simp
next
  case (Cons v vs)
  show ?case
  proof (cases "vs = []")
    case True
    then show ?thesis by (simp add: publish_replaces)
  next
    case False
    with Cons.IH [of "q\<lparr>items := [v]\<rparr>"] show ?thesis by (simp add: publish_replaces)
  qed
qed

lemma puts_at_most_one: "length (items q) \<le> 1 \<Longrightarrow> length (items (snd (puts q vs))) \<le> 1"
  by (cases "vs = []") (simp_all add: puts_last)

text \<open>
  C5. Starting from a buffer holding at most one frame, after the publications of the
  frames vs (at least one, no get in between) the next get returns the last of vs and
  leaves the buffer empty. Each publication raises nothing and leaves exactly the frame
  published, and after every prefix of the publications the buffer holds at most one frame.
\<close>

theorem latest_wins:
  assumes "vs \<noteq> []" and "length (items q) \<le> 1"
  shows "puts q vs = (None, q\<lparr>items := [last vs]\<rparr>) \<and>
         get_or_none (snd (puts q vs)) = (Some (last vs), q\<lparr>items := []\<rparr>) \<and>
         (\<forall>k. length (items (snd (puts q (take k vs)))) \<le> 1) \<and>
         (\<forall>q' v. publish q' v = (None, q'\<lparr>items := [v]\<rparr>))"
proof -
  have a: "puts q vs = (None, q\<lparr>items := [last vs]\<rparr>)"
    using assms(1) by (rule puts_last)
  have b: "get_or_none (snd (puts q vs)) = (Some (last vs), q\<lparr>items := []\<rparr>)"
    by (simp add: a get_or_none_def get_nowait_def)
  have c: "\<forall>k. length (items (snd (puts q (take k vs)))) \<le> 1"
    using puts_at_most_one [OF assms(2)] by blast
  have d: "\<forall>q' v. publish q' v = (None, q'\<lparr>items := [v]\<rparr>)"
    by (simp add: publish_replaces)
  from a b c d show ?thesis by blast
qed

theorem latest_wins_witness:
  "puts (Queue 1) [3, 1, 2 :: nat] = (None, \<lparr>maxsize = 1, items = [2]\<rparr>) \<and>
   get_or_none (snd (puts (Queue 1) [3, 1, 2 :: nat])) = (Some 2, \<lparr>maxsize = 1, items = []\<rparr>)"
proof -
  have h1: "[3, 1, 2 :: nat] \<noteq> []" by simp
  have h2: "length (items (Queue 1 :: nat py_queue)) \<le> 1" by (simp add: Queue_def)
  from latest_wins [OF h1 h2]
  have "puts (Queue 1) [3, 1, 2 :: nat] = (None, (Queue 1)\<lparr>items := [last [3, 1, 2]]\<rparr>) \<and>
        get_or_none (snd (puts (Queue 1) [3, 1, 2 :: nat])) =
          (Some (last [3, 1, 2]), (Queue 1)\<lparr>items := []\<rparr>)"
    by blast
  then show ?thesis by (simp add: Queue_def get_or_none_def get_nowait_def del: puts.simps)
qed

section \<open>Facts about the fetcher\<close>

text \<open>
  C9. For every target_fps, zero and negative values included, line 32 divides by a
  positive number: it raises nothing, and the period is positive and at most 10 seconds.
\<close>

theorem fetcher_period_bounded:
  "\<exists>p. fetcher_period target_fps = Inr p \<and> p = 1 / max (1 / 10) target_fps \<and> 0 < p \<and> p \<le> 10"
proof -
  have m: "(1 / 10 :: rat) \<le> max (1 / 10) target_fps" by simp
  then have pos: "0 < max (1 / 10) target_fps" by linarith
  have "1 / max (1 / 10) target_fps \<le> 1 / (1 / 10)"
    using m by (intro divide_left_mono) (auto intro: mult_pos_pos pos)
  then show ?thesis using pos by (simp add: fetcher_period_def py_div_def)
qed

theorem fetcher_period_witness:
  "fetcher_period 0 = Inr 10 \<and> fetcher_period (- 5) = Inr 10 \<and> fetcher_period 20 = Inr (1 / 20)"
  using fetcher_period_bounded [of 0] fetcher_period_bounded [of "- 5"]
    fetcher_period_bounded [of 20]
  by (simp add: fetcher_period_def py_div_def)

text \<open>The two shapes of a pass.\<close>

lemma pass_wait:
  "now ob < t_next s \<Longrightarrow> pass dec p s ob = ([Pace (min (2 / 1000) (t_next s - now ob))], s)"
  by (simp add: pass_def)

lemma pass_failure:
  assumes "\<not> now ob < t_next s" and "fetch_decode (got ob) dec = Inl e"
  shows "pass dec p s ob =
           ([Get (now ob), Backoff (min (1 / 2) (backoff s + 1 / 20))],
            s\<lparr>t_next := t_next s + p, backoff := min (1 / 2) (backoff s + 1 / 20)\<rparr>)"
  using assms by (simp add: pass_def Let_def)

lemma pass_success:
  assumes "\<not> now ob < t_next s" and "fetch_decode (got ob) dec = Inr frame"
  shows "pass dec p s ob =
           ([Get (now ob)],
            s\<lparr>t_next := t_next s + p, out_q := (out_q s)\<lparr>items := [frame]\<rparr>, backoff := 0\<rparr>)"
  using assms by (simp add: pass_def Let_def publish_replaces)

lemma pass_cases:
  obtains (wait) "now ob < t_next s"
      "pass dec p s ob = ([Pace (min (2 / 1000) (t_next s - now ob))], s)"
  | (failure) e where "\<not> now ob < t_next s" "fetch_decode (got ob) dec = Inl e"
      "pass dec p s ob =
           ([Get (now ob), Backoff (min (1 / 2) (backoff s + 1 / 20))],
            s\<lparr>t_next := t_next s + p, backoff := min (1 / 2) (backoff s + 1 / 20)\<rparr>)"
  | (success) frame where "\<not> now ob < t_next s" "fetch_decode (got ob) dec = Inr frame"
      "pass dec p s ob =
           ([Get (now ob)],
            s\<lparr>t_next := t_next s + p, out_q := (out_q s)\<lparr>items := [frame]\<rparr>, backoff := 0\<rparr>)"
proof (cases "now ob < t_next s")
  case True
  then show ?thesis using wait pass_wait by blast
next
  case False
  show ?thesis
  proof (cases "fetch_decode (got ob) dec")
    case (Inl e)
    with False show ?thesis using failure pass_failure by blast
  next
    case (Inr frame)
    with False show ?thesis using success pass_success by blast
  qed
qed

lemma delays_append: "delays (xs @ ys) = delays xs @ delays ys"
  by (induction xs rule: delays.induct) simp_all

lemma fetch_times_append: "fetch_times (xs @ ys) = fetch_times xs @ fetch_times ys"
  by (induction xs rule: fetch_times.induct) simp_all

lemma fetcher_loop_Cons:
  "\<not> is_set ob \<Longrightarrow> pass dec p s ob = (tr1, s1) \<Longrightarrow>
   fetcher_loop dec p s (ob # obs) =
     (tr1 @ fst (fetcher_loop dec p s1 obs), snd (fetcher_loop dec p s1 obs))"
  by (simp split: prod.splits)

lemma grow_bounds:
  fixes b :: rat
  assumes "0 \<le> b" and "b \<le> 1 / 2"
  shows "1 / 20 \<le> min (1 / 2) (b + 1 / 20)" and "min (1 / 2) (b + 1 / 20) \<le> 1 / 2"
    and "b \<le> min (1 / 2) (b + 1 / 20)" and "0 \<le> min (1 / 2) (b + 1 / 20)"
  using assms unfolding min_def by (simp_all; linarith)+

text \<open>Every sleep of line 64 lies between the backoff before it, grown once, and the cap.\<close>

lemma delays_bounds:
  assumes "0 \<le> backoff s" and "backoff s \<le> 1 / 2"
  shows "\<forall>d \<in> set (delays (fst (fetcher_loop dec p s obs))). 1 / 20 \<le> d \<and> d \<le> 1 / 2"
  using assms
proof (induction obs arbitrary: s)
  case Nil
  then show ?case by simp
next
  case (Cons ob obs)
  show ?case
  proof (cases "is_set ob")
    case True
    then show ?thesis by simp
  next
    case False
    show ?thesis
    proof (cases rule: pass_cases [where ob = ob and s = s and dec = dec and p = p])
      case wait
      show ?thesis unfolding fetcher_loop_Cons [OF False wait(2)]
        using Cons.IH [OF Cons.prems] by (simp add: delays_append)
    next
      case (failure e)
      define g where "g = min (1 / 2) (backoff s + 1 / 20)"
      have gb: "1 / 20 \<le> g" "g \<le> 1 / 2" "0 \<le> g"
        unfolding g_def by (rule grow_bounds [OF Cons.prems])+
      have pf: "pass dec p s ob =
          ([Get (now ob), Backoff g], s\<lparr>t_next := t_next s + p, backoff := g\<rparr>)"
        using failure(3) by (simp add: g_def)
      have "0 \<le> backoff (s\<lparr>t_next := t_next s + p, backoff := g\<rparr>)"
        "backoff (s\<lparr>t_next := t_next s + p, backoff := g\<rparr>) \<le> 1 / 2"
        using gb by simp_all
      from Cons.IH [OF this] gb show ?thesis
        unfolding fetcher_loop_Cons [OF False pf] by (simp add: delays_append)
    next
      case (success frame)
      let ?s1 = "s\<lparr>t_next := t_next s + p, out_q := (out_q s)\<lparr>items := [frame]\<rparr>, backoff := 0\<rparr>"
      have "0 \<le> backoff ?s1" "backoff ?s1 \<le> 1 / 2" by simp_all
      from Cons.IH [OF this] show ?thesis
        unfolding fetcher_loop_Cons [OF False success(3)] by (simp add: delays_append)
    qed
  qed
qed


text \<open>While every attempt fails, each sleep of line 64 is at least the one before it.\<close>

lemma delays_sorted:
  assumes "\<forall>ob \<in> set obs. \<exists>e. fetch_decode (got ob) dec = Inl e"
    and "0 \<le> backoff s" and "backoff s \<le> 1 / 2"
  shows "sorted (delays (fst (fetcher_loop dec p s obs))) \<and>
         (\<forall>d \<in> set (delays (fst (fetcher_loop dec p s obs))). backoff s \<le> d)"
  using assms
proof (induction obs arbitrary: s)
  case Nil
  then show ?case by simp
next
  case (Cons ob obs)
  have rest: "\<forall>ob \<in> set obs. \<exists>e. fetch_decode (got ob) dec = Inl e"
    using Cons.prems(1) by simp
  show ?case
  proof (cases "is_set ob")
    case True
    then show ?thesis by simp
  next
    case False
    show ?thesis
    proof (cases rule: pass_cases [where ob = ob and s = s and dec = dec and p = p])
      case wait
      show ?thesis unfolding fetcher_loop_Cons [OF False wait(2)]
        using Cons.IH [OF rest Cons.prems(2,3)] by (simp add: delays_append)
    next
      case (failure e)
      define g where "g = min (1 / 2) (backoff s + 1 / 20)"
      have gb: "g \<le> 1 / 2" "0 \<le> g" "backoff s \<le> g"
        unfolding g_def by (rule grow_bounds [OF Cons.prems(2,3)])+
      have pf: "pass dec p s ob =
          ([Get (now ob), Backoff g], s\<lparr>t_next := t_next s + p, backoff := g\<rparr>)"
        using failure(3) by (simp add: g_def)
      have "0 \<le> backoff (s\<lparr>t_next := t_next s + p, backoff := g\<rparr>)"
        "backoff (s\<lparr>t_next := t_next s + p, backoff := g\<rparr>) \<le> 1 / 2"
        using gb by simp_all
      from Cons.IH [OF rest this] gb(3) show ?thesis
        unfolding fetcher_loop_Cons [OF False pf] by (auto simp: delays_append)
    next
      case (success frame)
      from Cons.prems(1) have "\<exists>e. fetch_decode (got ob) dec = Inl e" by simp
      with success(2) have False by simp
      then show ?thesis ..
    qed
  qed
qed

lemma fetcher_unfold:
  "fetcher dec target_fps t0 q obs =
     Inr (fetcher_loop dec (1 / max (1 / 10) target_fps)
            \<lparr>t_next = t0, backoff = 0, out_q = q\<rparr> obs)"
proof -
  have "(1 / 10 :: rat) \<le> max (1 / 10) target_fps" by simp
  then have "max (1 / 10) target_fps \<noteq> 0" by linarith
  then show ?thesis by (simp add: fetcher_def fetcher_period_def py_div_def)
qed

text \<open>
  C4, as amended. On a failed attempt the fetcher first grows backoff by 0.05, capped at
  0.5, and then sleeps for the grown value; a successful attempt sleeps for nothing and
  sets backoff to 0, so the first failure after a success sleeps for 0.05. In every run
  each such sleep lies between 0.05 and 0.5, and while every attempt fails the sleeps are
  non-decreasing.
\<close>

theorem backoff_growth_and_reset:
  "(\<not> now ob < t_next s \<and> fetch_decode (got ob) dec = Inl e \<longrightarrow>
      pass dec p s ob =
        ([Get (now ob), Backoff (min (1 / 2) (backoff s + 1 / 20))],
         s\<lparr>t_next := t_next s + p, backoff := min (1 / 2) (backoff s + 1 / 20)\<rparr>)) \<and>
   (\<not> now ob < t_next s \<and> fetch_decode (got ob) dec = Inr frame \<longrightarrow>
      delays (fst (pass dec p s ob)) = [] \<and> backoff (snd (pass dec p s ob)) = 0) \<and>
   (\<exists>tr s'. fetcher dec target_fps t0 q obs = Inr (tr, s') \<and>
      (\<forall>d \<in> set (delays tr). 1 / 20 \<le> d \<and> d \<le> 1 / 2) \<and>
      ((\<forall>ob \<in> set obs. \<exists>e. fetch_decode (got ob) dec = Inl e) \<longrightarrow> sorted (delays tr)))"
proof (intro conjI impI)
  assume "\<not> now ob < t_next s \<and> fetch_decode (got ob) dec = Inl e"
  then show "pass dec p s ob =
        ([Get (now ob), Backoff (min (1 / 2) (backoff s + 1 / 20))],
         s\<lparr>t_next := t_next s + p, backoff := min (1 / 2) (backoff s + 1 / 20)\<rparr>)"
    using pass_failure by blast
next
  assume h: "\<not> now ob < t_next s \<and> fetch_decode (got ob) dec = Inr frame"
  then have "pass dec p s ob = ([Get (now ob)],
            s\<lparr>t_next := t_next s + p, out_q := (out_q s)\<lparr>items := [frame]\<rparr>, backoff := 0\<rparr>)"
    using pass_success by blast
  then show "delays (fst (pass dec p s ob)) = []" and "backoff (snd (pass dec p s ob)) = 0"
    by simp_all
next
  let ?s0 = "\<lparr>t_next = t0, backoff = 0, out_q = q\<rparr>"
  let ?p = "1 / max (1 / 10) target_fps"
  let ?r = "fetcher_loop dec ?p ?s0 obs"
  have b: "0 \<le> backoff ?s0" "backoff ?s0 \<le> 1 / 2" by simp_all
  have 1: "fetcher dec target_fps t0 q obs = Inr (fst ?r, snd ?r)"
    by (simp add: fetcher_unfold)
  have 2: "\<forall>d \<in> set (delays (fst ?r)). 1 / 20 \<le> d \<and> d \<le> 1 / 2"
    by (rule delays_bounds [OF b])
  have 3: "(\<forall>ob \<in> set obs. \<exists>e. fetch_decode (got ob) dec = Inl e) \<longrightarrow> sorted (delays (fst ?r))"
    using delays_sorted [OF _ b] by blast
  from 1 2 3 show "\<exists>tr s'. fetcher dec target_fps t0 q obs = Inr (tr, s') \<and>
      (\<forall>d \<in> set (delays tr). 1 / 20 \<le> d \<and> d \<le> 1 / 2) \<and>
      ((\<forall>ob \<in> set obs. \<exists>e. fetch_decode (got ob) dec = Inl e) \<longrightarrow> sorted (delays tr))"
    by blast
qed

lemma sample_failing_run:
  "fetcher sample_decoder 20 0 (Queue 1)
     [sample_obs 0 (Inl Timeout), sample_obs 1 (Inr (Response 503 [1])),
      sample_obs 2 (Inr (Response 200 [])), sample_obs 3 (Inr (Response 200 [7]))] =
   Inr ([Get 0, Backoff (1 / 20), Get 1, Backoff (1 / 10), Get 2, Backoff (3 / 20),
         Get 3, Backoff (1 / 5)],
        \<lparr>t_next = 1 / 5, backoff = 1 / 5, out_q = Queue 1\<rparr>)"
  by code_simp

lemma sample_reset_run:
  "fetcher sample_decoder 1 0 (Queue 1)
     [sample_obs 0 (Inr (Response 200 [1])), sample_obs 1 (Inl Timeout)] =
   Inr ([Get 0, Get 1, Backoff (1 / 20)],
        \<lparr>t_next = 2, backoff = 1 / 20, out_q = \<lparr>maxsize = 1, items = [frame_A]\<rparr>\<rparr>)"
  by code_simp

lemma sample_burst_run:
  "fetcher sample_decoder 10 0 (Queue 1)
     [sample_obs 0 (Inr (Response 200 [1])), sample_obs 1 (Inr (Response 200 [1])),
      sample_obs (101 / 100) (Inr (Response 200 [1])),
      sample_obs (102 / 100) (Inr (Response 200 [1])),
      sample_obs (103 / 100) (Inr (Response 200 [1]))] =
   Inr ([Get 0, Get 1, Get (101 / 100), Get (102 / 100), Get (103 / 100)],
        \<lparr>t_next = 1 / 2, backoff = 0, out_q = \<lparr>maxsize = 1, items = [frame_A]\<rparr>\<rparr>)"
  by code_simp


text \<open>
  C4 as stated fails: after a success, the first failure sleeps for 0.05 and not for 0.
\<close>

theorem backoff_sleep_before_grow_counterexample:
  "delays (fst (projr (fetcher sample_decoder 1 0 (Queue 1)
     [sample_obs 0 (Inr (Response 200 [1])), sample_obs 1 (Inl Timeout)]))) = [1 / 20] \<and>
   delays (fst (projr (fetcher sample_decoder 1 0 (Queue 1)
     [sample_obs 0 (Inr (Response 200 [1])), sample_obs 1 (Inl Timeout)]))) \<noteq> [0]"
  unfolding sample_reset_run by simp

theorem backoff_growth_and_reset_witness:
  "pass sample_decoder 1 \<lparr>t_next = 0, backoff = 0, out_q = Queue 1\<rparr> (sample_obs 1 (Inl Timeout)) =
     ([Get 1, Backoff (1 / 20)], \<lparr>t_next = 1, backoff = 1 / 20, out_q = Queue 1\<rparr>) \<and>
   backoff (snd (pass sample_decoder 1 \<lparr>t_next = 0, backoff = 3 / 20, out_q = Queue 1\<rparr>
     (sample_obs 1 (Inr (Response 200 [1]))))) = 0 \<and>
   sorted (delays (fst (projr (fetcher sample_decoder 20 0 (Queue 1)
     [sample_obs 0 (Inl Timeout), sample_obs 1 (Inr (Response 503 [1])),
      sample_obs 2 (Inr (Response 200 [])), sample_obs 3 (Inr (Response 200 [7]))]))))"
proof -
  let ?obs = "[sample_obs 0 (Inl Timeout), sample_obs 1 (Inr (Response 503 [1])),
      sample_obs 2 (Inr (Response 200 [])), sample_obs 3 (Inr (Response 200 [7]))]"
  have f: "fetch_decode (got (sample_obs 1 (Inl Timeout))) sample_decoder = Inl Timeout"
    by (simp add: fetch_decode_def sample_obs_def)
  have g: "fetch_decode (got (sample_obs 1 (Inr (Response 200 [1])))) sample_decoder = Inr frame_A"
    by (simp add: fetch_decode_def sample_obs_def raise_for_status_def sample_decoder_def)
  have t: "\<not> now (sample_obs 1 (Inl Timeout)) < t_next \<lparr>t_next = 0, backoff = 0, out_q = Queue 1\<rparr>"
    "\<not> now (sample_obs 1 (Inr (Response 200 [1])))
        < t_next \<lparr>t_next = 0, backoff = 3 / 20, out_q = Queue 1\<rparr>"
    by (simp_all add: sample_obs_def)
  have allfail: "\<forall>ob \<in> set ?obs. \<exists>e. fetch_decode (got ob) sample_decoder = Inl e"
    by (simp add: fetch_decode_def sample_obs_def raise_for_status_def sample_decoder_def)
  note T1 = backoff_growth_and_reset [where ob = "sample_obs 1 (Inl Timeout)"
      and s = "\<lparr>t_next = 0, backoff = 0, out_q = Queue 1\<rparr>" and dec = sample_decoder
      and e = Timeout and p = 1 and frame = frame_A and target_fps = 20 and ?t0.0 = 0
      and q = "Queue 1" and obs = ?obs]
  note T2 = backoff_growth_and_reset [where ob = "sample_obs 1 (Inr (Response 200 [1]))"
      and s = "\<lparr>t_next = 0, backoff = 3 / 20, out_q = Queue 1\<rparr>" and dec = sample_decoder
      and e = Timeout and p = 1 and frame = frame_A and target_fps = 20 and ?t0.0 = 0
      and q = "Queue 1" and obs = ?obs]
  have c1: "pass sample_decoder 1 \<lparr>t_next = 0, backoff = 0, out_q = Queue 1\<rparr>
      (sample_obs 1 (Inl Timeout)) =
     ([Get 1, Backoff (1 / 20)], \<lparr>t_next = 1, backoff = 1 / 20, out_q = Queue 1\<rparr>)"
    using T1 f t(1) by (simp add: sample_obs_def)
  have c2: "backoff (snd (pass sample_decoder 1 \<lparr>t_next = 0, backoff = 3 / 20, out_q = Queue 1\<rparr>
     (sample_obs 1 (Inr (Response 200 [1]))))) = 0"
    using T2 g t(2) by blast
  have c3: "sorted (delays (fst (projr (fetcher sample_decoder 20 0 (Queue 1) ?obs))))"
    using T1 allfail by auto
  from c1 c2 c3 show ?thesis by blast
qed

text \<open>
  C6. The claim asks that the number of requests in any window of W seconds is within one
  of R * W, and that no burst of back-to-back requests follows a fetch that ran long. At
  --target_fps 10, with a first fetch that took one second, line 42 has moved t_next on by
  one period only, so the passes that read the clock at 1.00, 1.01, 1.02 and 1.03 all find
  it past t_next: four requests, none of them failing, in a window of 0.03 seconds, where
  the claim allows at most 0.3 + 1.
\<close>

theorem pacer_catch_up_burst:
  "delays (fst (projr (fetcher sample_decoder 10 0 (Queue 1)
     [sample_obs 0 (Inr (Response 200 [1])), sample_obs 1 (Inr (Response 200 [1])),
      sample_obs (101 / 100) (Inr (Response 200 [1])),
      sample_obs (102 / 100) (Inr (Response 200 [1])),
      sample_obs (103 / 100) (Inr (Response 200 [1]))]))) = [] \<and>
   attempts_in (fst (projr (fetcher sample_decoder 10 0 (Queue 1)
     [sample_obs 0 (Inr (Response 200 [1])), sample_obs 1 (Inr (Response 200 [1])),
      sample_obs (101 / 100) (Inr (Response 200 [1])),
      sample_obs (102 / 100) (Inr (Response 200 [1])),
      sample_obs (103 / 100) (Inr (Response 200 [1]))]))) 1 (103 / 100) = 4 \<and>
   \<not> \<bar>of_nat (attempts_in (fst (projr (fetcher sample_decoder 10 0 (Queue 1)
     [sample_obs 0 (Inr (Response 200 [1])), sample_obs 1 (Inr (Response 200 [1])),
      sample_obs (101 / 100) (Inr (Response 200 [1])),
      sample_obs (102 / 100) (Inr (Response 200 [1])),
      sample_obs (103 / 100) (Inr (Response 200 [1]))]))) 1 (103 / 100)) - 10 * (3 / 100)\<bar>
     \<le> (1 :: rat)"
  unfolding sample_burst_run attempts_in_def by simp

section \<open>Facts about the recorder\<close>

lemma written_append: "written (xs @ ys) = written xs @ written ys"
  by (induction xs rule: written.induct) simp_all

lemma writer_sizes_append: "writer_sizes (xs @ ys) = writer_sizes xs @ writer_sizes ys"
  by (induction xs rule: writer_sizes.induct) simp_all

lemma written_sleep_until: "written (sleep_until w i nt) = []"
  by (simp add: sleep_until_def Let_def)

lemma writer_sizes_sleep_until: "writer_sizes (sleep_until w i nt) = []"
  by (simp add: sleep_until_def Let_def)

lemma cv2_resize_size: "cv2_resize ip src fs = Inr img \<Longrightarrow> dims img = fs"
  by (cases fs) (auto simp: cv2_resize_def dims_def split: if_splits)

lemma fit_frame_size: "fit_frame w fs frame = Inr img \<Longrightarrow> dims img = fs"
  by (auto simp: fit_frame_def dims_def dest: cv2_resize_size split: if_splits)


lemma output_size_Go:
  assumes "output_size a w first = Go (fs, f0)"
  shows "dims f0 = fs \<and>
         fs = (case resize a of WxH ow oh \<Rightarrow> (ow, oh) | _ \<Rightarrow> dims first) \<and>
         (resize a = NoResize \<longrightarrow> f0 = first) \<and>
         (\<forall>ow oh. resize a = WxH ow oh \<longrightarrow> cv2_resize (interp w) first (ow, oh) = Inr f0)"
  using assms
  by (auto simp: output_size_def dims_def dest: cv2_resize_size
      split: resize_arg.splits sum.splits)

lemma tick_Inr:
  assumes "tick a w fs i s = (tr, Inr s')"
  shows "written tr = [last_good s'] \<and> writer_sizes tr = [] \<and>
         (fetch_at a w i = Inr None \<and> last_good s' = last_good s \<or>
          (\<exists>frame. fetch_at a w i = Inr (Some frame) \<and> fit_frame w fs frame = Inr (last_good s')))"
  using assms
  by (auto simp: tick_def Let_def written_append written_sleep_until
      writer_sizes_append writer_sizes_sleep_until
      split: if_splits sum.splits option.splits)

lemma tick_Inl:
  assumes "tick a w fs i s = (tr, Inl e)"
  shows "written tr = [] \<and> writer_sizes tr = []"
  using assms
  by (auto simp: tick_def Let_def split: if_splits sum.splits option.splits)

lemma ticks_Cons_Inr:
  assumes "ticks a w fs (i # is) s = (tr, Inr s')"
  obtains tr1 s1 tr2 where "tick a w fs i s = (tr1, Inr s1)"
    and "ticks a w fs is s1 = (tr2, Inr s')" and "tr = tr1 @ tr2"
  using assms by (auto split: prod.splits sum.splits)

lemma ticks_Cons_cases:
  assumes "ticks a w fs (i # is) s = (tr, r)"
  shows "(\<exists>e. tick a w fs i s = (tr, Inl e)) \<or>
         (\<exists>tr1 s1 tr2. tick a w fs i s = (tr1, Inr s1) \<and> ticks a w fs is s1 = (tr2, r) \<and> tr = tr1 @ tr2)"
  using assms by (auto split: prod.splits sum.splits)

lemma ticks_sizes:
  assumes "ticks a w fs is s = (tr, r)" and "dims (last_good s) = fs"
  shows "writer_sizes tr = [] \<and> (\<forall>img \<in> set (written tr). dims img = fs)"
  using assms
proof (induction "is" arbitrary: s tr)
  case Nil
  then show ?case by simp
next
  case (Cons i "is")
  from ticks_Cons_cases [OF Cons.prems(1)] show ?case
  proof (elim disjE exE conjE)
    fix e assume "tick a w fs i s = (tr, Inl e)"
    then show ?thesis using tick_Inl by simp
  next
    fix tr1 s1 tr2
    assume t: "tick a w fs i s = (tr1, Inr s1)" and r: "ticks a w fs is s1 = (tr2, r)"
      and tr: "tr = tr1 @ tr2"
    from tick_Inr [OF t] have w1: "written tr1 = [last_good s1]" and z1: "writer_sizes tr1 = []"
      and d1: "dims (last_good s1) = fs"
      by (auto dest: fit_frame_size simp: Cons.prems(2))
    from Cons.IH [OF r d1] show ?thesis
      by (simp add: tr written_append writer_sizes_append w1 z1 d1)
  qed
qed

lemma ticks_Inr:
  assumes "ticks a w fs is s = (tr, Inr s')"
  shows "length (written tr) = length is \<and>
         (\<forall>k < length is.
            fetch_at a w (is ! k) = Inr None \<and> written tr ! k = (last_good s # written tr) ! k \<or>
            (\<exists>frame. fetch_at a w (is ! k) = Inr (Some frame) \<and>
                      fit_frame w fs frame = Inr (written tr ! k)))"
  using assms
proof (induction "is" arbitrary: s tr)
  case Nil
  then show ?case by simp
next
  case (Cons i "is")
  from Cons.prems obtain tr1 s1 tr2 where t: "tick a w fs i s = (tr1, Inr s1)"
    and r: "ticks a w fs is s1 = (tr2, Inr s')" and tr: "tr = tr1 @ tr2"
    by (rule ticks_Cons_Inr)
  from tick_Inr [OF t] have w1: "written tr1 = [last_good s1]"
    and o1: "fetch_at a w i = Inr None \<and> last_good s1 = last_good s \<or>
          (\<exists>frame. fetch_at a w i = Inr (Some frame) \<and> fit_frame w fs frame = Inr (last_good s1))"
    by auto
  have wr: "written tr = last_good s1 # written tr2"
    by (simp add: tr written_append w1)
  from Cons.IH [OF r] have len: "length (written tr2) = length is"
    and ih: "\<And>k. k < length is \<Longrightarrow>
            fetch_at a w (is ! k) = Inr None \<and> written tr2 ! k = (last_good s1 # written tr2) ! k \<or>
            (\<exists>frame. fetch_at a w (is ! k) = Inr (Some frame) \<and>
                      fit_frame w fs frame = Inr (written tr2 ! k))"
    by auto
  show ?case
  proof (intro conjI allI impI)
    show "length (written tr) = length (i # is)" by (simp add: wr len)
  next
    fix k assume k: "k < length (i # is)"
    show "fetch_at a w ((i # is) ! k) = Inr None \<and> written tr ! k = (last_good s # written tr) ! k \<or>
            (\<exists>frame. fetch_at a w ((i # is) ! k) = Inr (Some frame) \<and>
                      fit_frame w fs frame = Inr (written tr ! k))"
    proof (cases k)
      case 0
      then show ?thesis using o1 by (auto simp: wr)
    next
      case (Suc k')
      then have "k' < length is" using k by simp
      from ih [OF this] show ?thesis by (simp add: Suc wr)
    qed
  qed
qed

lemma main_loop:
  assumes f: "fetch_at a w 0 = Inr (Some first)" and g: "output_size a w first = Go (fs, f0)"
    and o: "isOpened w"
    and t: "ticks a w fs [1 ..< nat (total_frames a)]
              \<lparr>next_tick = perf_counter w 0, last_good = f0\<rparr> = (tr3, r3)"
  shows "written (fst (main a w)) = f0 # written tr3 \<and> writer_sizes (fst (main a w)) = [fs] \<and>
         snd (main a w) = (case r3 of Inl e \<Rightarrow> Some e | Inr _ \<Rightarrow> None)"
proof -
  have d: "dims (last_good \<lparr>next_tick = perf_counter w 0, last_good = f0\<rparr>) = fs"
    using output_size_Go [OF g] by simp
  from ticks_sizes [OF t d] have z: "writer_sizes tr3 = []" by simp
  show ?thesis
    using f g o t z
    by (cases r3) (auto simp: main_def Let_def writer_sizes_append written_append)
qed

lemma main_shape:
  "written (fst (main a w)) = [] \<and>
         (writer_sizes (fst (main a w)) = [] \<or>
          (\<exists>first fs f0. fetch_at a w 0 = Inr (Some first) \<and>
             output_size a w first = Go (fs, f0) \<and> writer_sizes (fst (main a w)) = [fs])) \<or>
         (\<exists>first fs f0 tr3 r3.
            fetch_at a w 0 = Inr (Some first) \<and> output_size a w first = Go (fs, f0) \<and>
            isOpened w \<and>
            ticks a w fs [1 ..< nat (total_frames a)]
              \<lparr>next_tick = perf_counter w 0, last_good = f0\<rparr> = (tr3, r3) \<and>
            written (fst (main a w)) = f0 # written tr3 \<and> writer_sizes (fst (main a w)) = [fs] \<and>
            snd (main a w) = (case r3 of Inl e \<Rightarrow> Some e | Inr _ \<Rightarrow> None))"
proof (cases "fetch_at a w 0")
  case (Inl e)
  then show ?thesis by (auto simp: main_def)
next
  case (Inr v)
  show ?thesis
  proof (cases v)
    case None
    with Inr show ?thesis by (auto simp: main_def)
  next
    case (Some first)
    show ?thesis
    proof (cases "output_size a w first")
      case (Raise e)
      with Inr Some show ?thesis by (auto simp: main_def)
    next
      case Return
      with Inr Some show ?thesis by (auto simp: main_def)
    next
      case (Go p)
      obtain fs f0 where p: "p = (fs, f0)" by (cases p)
      show ?thesis
      proof (cases "isOpened w")
        case False
        with Inr Some Go p show ?thesis
          by (auto simp: main_def Let_def writer_sizes_append written_append)
      next
        case True
        obtain tr3 r3 where t: "ticks a w fs [1 ..< nat (total_frames a)]
              \<lparr>next_tick = perf_counter w 0, last_good = f0\<rparr> = (tr3, r3)"
          by (cases "ticks a w fs [1 ..< nat (total_frames a)]
              \<lparr>next_tick = perf_counter w 0, last_good = f0\<rparr>")
        from main_loop [OF _ _ True t, of first] Inr Some Go p True t show ?thesis by blast
      qed
    qed
  qed
qed

lemma completed_session_frame_count:
  assumes "fetch_at a w 0 = Inr (Some first)" and "output_size a w first = Go (fs, f0)"
    and "isOpened w" and "snd (main a w) = None"
  shows "int (length (written (fst (main a w)))) = max 1 (total_frames a)"
proof -
  obtain tr3 r3 where t: "ticks a w fs [1 ..< nat (total_frames a)]
              \<lparr>next_tick = perf_counter w 0, last_good = f0\<rparr> = (tr3, r3)"
    by (cases "ticks a w fs [1 ..< nat (total_frames a)]
              \<lparr>next_tick = perf_counter w 0, last_good = f0\<rparr>")
  from main_loop [OF assms(1,2,3) t] assms(4) obtain s' where r3: "r3 = Inr s'"
    and wr: "written (fst (main a w)) = f0 # written tr3"
    by (cases r3) auto
  from ticks_Inr [OF t [unfolded r3]] have "length (written tr3) = nat (total_frames a) - 1"
    by simp
  then show ?thesis by (simp add: wr)
qed

text \<open>
  What the loop has written, however it ends: each frame is the one before it when the
  fetch of its tick returned None, and the fetched frame, fitted, when it succeeded.
\<close>

lemma ticks_any:
  assumes "ticks a w fs is s = (tr, r)"
  shows "length (written tr) \<le> length is \<and>
         (\<forall>k < length (written tr).
            fetch_at a w (is ! k) = Inr None \<and> written tr ! k = (last_good s # written tr) ! k \<or>
            (\<exists>frame. fetch_at a w (is ! k) = Inr (Some frame) \<and>
                      fit_frame w fs frame = Inr (written tr ! k)))"
  using assms
proof (induction "is" arbitrary: s tr)
  case Nil
  then show ?case by simp
next
  case (Cons i "is")
  from ticks_Cons_cases [OF Cons.prems] show ?case
  proof (elim disjE exE conjE)
    fix e assume "tick a w fs i s = (tr, Inl e)"
    from tick_Inl [OF this] show ?thesis by simp
  next
    fix tr1 s1 tr2
    assume t: "tick a w fs i s = (tr1, Inr s1)" and r: "ticks a w fs is s1 = (tr2, r)"
      and tr: "tr = tr1 @ tr2"
    from tick_Inr [OF t] have w1: "written tr1 = [last_good s1]"
      and o1: "fetch_at a w i = Inr None \<and> last_good s1 = last_good s \<or>
          (\<exists>frame. fetch_at a w i = Inr (Some frame) \<and> fit_frame w fs frame = Inr (last_good s1))"
      by auto
    have wr: "written tr = last_good s1 # written tr2"
      by (simp add: tr written_append w1)
    from Cons.IH [OF r] have len: "length (written tr2) \<le> length is"
      and ih: "\<And>k. k < length (written tr2) \<Longrightarrow>
            fetch_at a w (is ! k) = Inr None \<and> written tr2 ! k = (last_good s1 # written tr2) ! k \<or>
            (\<exists>frame. fetch_at a w (is ! k) = Inr (Some frame) \<and>
                      fit_frame w fs frame = Inr (written tr2 ! k))"
      by auto
    show ?thesis
    proof (intro conjI allI impI)
      show "length (written tr) \<le> length (i # is)" by (simp add: wr len)
    next
      fix k assume k: "k < length (written tr)"
      show "fetch_at a w ((i # is) ! k) = Inr None \<and> written tr ! k = (last_good s # written tr) ! k \<or>
            (\<exists>frame. fetch_at a w ((i # is) ! k) = Inr (Some frame) \<and>
                      fit_frame w fs frame = Inr (written tr ! k))"
      proof (cases k)
        case 0
        then show ?thesis using o1 by (auto simp: wr)
      next
        case (Suc k')
        then have "k' < length (written tr2)" using k by (simp add: wr)
        from ih [OF this] show ?thesis by (simp add: Suc wr)
      qed
    qed
  qed
qed

text \<open>
  The same for main, with fs the size given to the writer: tick i, for i from 1, either
  repeats the frame written before it or writes the frame it fetched, fitted to fs.
\<close>

lemma main_written_step:
  assumes i: "0 < i" "i < length (written (fst (main a w)))"
  shows "writer_sizes (fst (main a w)) = [dims (written (fst (main a w)) ! 0)] \<and>
         (fetch_at a w i = Inr None \<and>
            written (fst (main a w)) ! i = written (fst (main a w)) ! (i - 1) \<or>
          (\<exists>frame. fetch_at a w i = Inr (Some frame) \<and>
            fit_frame w (dims (written (fst (main a w)) ! 0)) frame =
              Inr (written (fst (main a w)) ! i)))"
proof -
  from main_shape [of a w] i obtain first fs f0 tr3 r3 where
    g: "output_size a w first = Go (fs, f0)" and
    t: "ticks a w fs [1 ..< nat (total_frames a)]
              \<lparr>next_tick = perf_counter w 0, last_good = f0\<rparr> = (tr3, r3)" and
    wr: "written (fst (main a w)) = f0 # written tr3" and
    ws: "writer_sizes (fst (main a w)) = [fs]"
    by auto
  from output_size_Go [OF g] have d: "dims f0 = fs" by simp
  obtain k where k: "i = Suc k" using i(1) by (cases i) auto
  from ticks_any [OF t] have len: "length (written tr3) \<le> nat (total_frames a) - 1"
    and st: "\<And>k. k < length (written tr3) \<Longrightarrow>
            fetch_at a w ([1 ..< nat (total_frames a)] ! k) = Inr None \<and>
              written tr3 ! k = (f0 # written tr3) ! k \<or>
            (\<exists>frame. fetch_at a w ([1 ..< nat (total_frames a)] ! k) = Inr (Some frame) \<and>
                      fit_frame w fs frame = Inr (written tr3 ! k))"
    by auto
  have kw: "k < length (written tr3)" using i(2) by (simp add: wr k)
  then have "k < nat (total_frames a) - 1" using len by simp
  then have idx: "[1 ..< nat (total_frames a)] ! k = Suc k" by simp
  from st [OF kw] show ?thesis unfolding idx by (simp add: wr ws k d)
qed



lemma sample_run_resized:
  "main (sample_args 2 2) (sample_world (freeze_gets [3])) =
     ([Print FetchingFirst, Fetch 0, VideoWriter ''capture.mp4'' 1983148141 2 (2, 2),
       Print (Writing 4), Write frame_A, Fetch 1, Write frame_A, Fetch 2, Write frame_A,
       Fetch 3, Write (Image 2 2 [0, 0, 0, 0]), Release, Print (Done 4)], None)"
  by code_simp

lemma sample_run_zero:
  "main (sample_args 10 0) (sample_world (freeze_gets [2])) =
     ([Print FetchingFirst, Fetch 0, VideoWriter ''capture.mp4'' 1983148141 10 (2, 2),
       Print (Writing 0), Write frame_A, Release, Print (Done 0)], None)"
  by code_simp

lemma sample_fetches:
  "fetch_at (sample_args f d) (sample_world (freeze_gets body)) 0 = Inr (Some frame_A)"
  "fetch_at (sample_args f d) (sample_world (freeze_gets body)) 1 = Inr None"
  "fetch_at (sample_args f d) (sample_world (freeze_gets body)) 2 = Inr None"
  "fetch_at (sample_args f d) (sample_world (freeze_gets [2])) 3 = Inr (Some frame_B)"
  "fetch_at (sample_args f d) (sample_world (freeze_gets [3])) 3 = Inr (Some frame_B4)"
  by (simp_all add: fetch_at_def fetch_jpeg_cases sample_world_def sample_args_def
      freeze_gets_def sample_decoder_def)

lemma sample_total_frames:
  "total_frames (sample_args 10 0) = 0" "total_frames (sample_args 2 2) = 4"
  by (simp_all add: total_frames_def sample_args_def py_round_def)

text \<open>
  C1. The claim asks for exactly round(fps * seconds) frames, none when that is 0. With
  --fps 10 --seconds 0 the count total_frames is 0, main writes the pre-fetched frame all
  the same, and then reports 0 frames written.
\<close>

theorem zero_frames_session_writes_one:
  "total_frames (sample_args 10 0) = 0 \<and>
   written (fst (main (sample_args 10 0) (sample_world (freeze_gets [2])))) = [frame_A] \<and>
   Print (Done 0) \<in> set (fst (main (sample_args 10 0) (sample_world (freeze_gets [2]))))"
  by (simp add: sample_run_zero sample_total_frames)

lemma main_first_written:
  assumes "written (fst (main a w)) \<noteq> []"
  shows "\<exists>first. fetch_at a w 0 = Inr (Some first) \<and>
           (resize a = NoResize \<longrightarrow> written (fst (main a w)) ! 0 = first) \<and>
           (\<forall>ow oh. resize a = WxH ow oh \<longrightarrow>
              cv2_resize (interp w) first (ow, oh) = Inr (written (fst (main a w)) ! 0))"
proof -
  from main_shape [of a w] assms obtain first fs f0 tr3 where
    f: "fetch_at a w 0 = Inr (Some first)" and
    g: "output_size a w first = Go (fs, f0)" and
    wr: "written (fst (main a w)) = f0 # written tr3"
    by auto
  from output_size_Go [OF g] f show ?thesis by (auto simp: wr)
qed

lemma sample_run_upscaled:
  "main ((sample_args 2 1)\<lparr>resize := WxH 4 4\<rparr>) (sample_world (freeze_gets [2])) =
     ([Print FetchingFirst, Fetch 0, VideoWriter ''capture.mp4'' 1983148141 2 (4, 4),
       Print (Writing 2), Write (Image 4 4 (replicate 16 0)), Fetch 1,
       Write (Image 4 4 (replicate 16 0)), Release, Print (Done 2)], None)"
  by code_simp

text \<open>
  C8. A session gives cv2.VideoWriter at most one frame size: the size of --resize when it
  is given, the size of the first frame otherwise. Every frame handed to writer.write in
  that session has exactly that width and height. Frame 0 is the first frame itself, or
  the first frame resized to the --resize size. After it, a tick whose fetch returned None
  writes again the frame written before it, and a tick whose fetch succeeded writes the
  fetched frame itself if it has the output size and the fetched frame resized to the
  output size if it has not.
\<close>

theorem written_frames_have_output_size:
  "length (writer_sizes (fst (main a w))) \<le> 1 \<and>
   (\<forall>fs \<in> set (writer_sizes (fst (main a w))).
      (\<forall>img \<in> set (written (fst (main a w))). dims img = fs) \<and>
      (\<forall>first. fetch_at a w 0 = Inr (Some first) \<longrightarrow>
         fs = (case resize a of WxH ow oh \<Rightarrow> (ow, oh) | _ \<Rightarrow> dims first) \<and>
         (written (fst (main a w)) \<noteq> [] \<and> resize a = NoResize \<longrightarrow>
            written (fst (main a w)) ! 0 = first) \<and>
         (\<forall>ow oh. written (fst (main a w)) \<noteq> [] \<and> resize a = WxH ow oh \<longrightarrow>
            cv2_resize (interp w) first (ow, oh) = Inr (written (fst (main a w)) ! 0))) \<and>
      (\<forall>i. 0 < i \<and> i < length (written (fst (main a w))) \<longrightarrow>
         fetch_at a w i = Inr None \<and>
           written (fst (main a w)) ! i = written (fst (main a w)) ! (i - 1) \<or>
         (\<exists>frame. fetch_at a w i = Inr (Some frame) \<and>
            (dims frame = fs \<longrightarrow> written (fst (main a w)) ! i = frame) \<and>
            (dims frame \<noteq> fs \<longrightarrow>
               cv2_resize (interp w) frame fs = Inr (written (fst (main a w)) ! i)))))"
proof -
  let ?wr = "written (fst (main a w))"
  have step: "\<forall>i. 0 < i \<and> i < length ?wr \<longrightarrow>
         fetch_at a w i = Inr None \<and> ?wr ! i = ?wr ! (i - 1) \<or>
         (\<exists>frame. fetch_at a w i = Inr (Some frame) \<and>
            (dims frame = fs \<longrightarrow> ?wr ! i = frame) \<and>
            (dims frame \<noteq> fs \<longrightarrow> cv2_resize (interp w) frame fs = Inr (?wr ! i)))"
    if ws: "writer_sizes (fst (main a w)) = [fs]" for fs
  proof (intro allI impI)
    fix i assume i: "0 < i \<and> i < length ?wr"
    then have i1: "0 < i" and i2: "i < length ?wr" by simp_all
    from main_written_step [OF i1 i2] ws have fs: "dims (?wr ! 0) = fs"
      and o: "fetch_at a w i = Inr None \<and> ?wr ! i = ?wr ! (i - 1) \<or>
          (\<exists>frame. fetch_at a w i = Inr (Some frame) \<and> fit_frame w fs frame = Inr (?wr ! i))"
      by auto
    from o show "fetch_at a w i = Inr None \<and> ?wr ! i = ?wr ! (i - 1) \<or>
         (\<exists>frame. fetch_at a w i = Inr (Some frame) \<and>
            (dims frame = fs \<longrightarrow> ?wr ! i = frame) \<and>
            (dims frame \<noteq> fs \<longrightarrow> cv2_resize (interp w) frame fs = Inr (?wr ! i)))"
    proof (elim disjE exE conjE)
      assume "fetch_at a w i = Inr None" "?wr ! i = ?wr ! (i - 1)"
      then show ?thesis by simp
    next
      fix frame
      assume f: "fetch_at a w i = Inr (Some frame)" and t: "fit_frame w fs frame = Inr (?wr ! i)"
      from t have "(dims frame = fs \<longrightarrow> ?wr ! i = frame) \<and>
            (dims frame \<noteq> fs \<longrightarrow> cv2_resize (interp w) frame fs = Inr (?wr ! i))"
        by (auto simp: fit_frame_def dims_def split: if_splits)
      with f show ?thesis by blast
    qed
  qed
  have first: "(written (fst (main a w)) \<noteq> [] \<and> resize a = NoResize \<longrightarrow>
            written (fst (main a w)) ! 0 = first) \<and>
         (\<forall>ow oh. written (fst (main a w)) \<noteq> [] \<and> resize a = WxH ow oh \<longrightarrow>
            cv2_resize (interp w) first (ow, oh) = Inr (written (fst (main a w)) ! 0))"
    if "fetch_at a w 0 = Inr (Some first)" for first
    using main_first_written [of a w] that by auto
  from main_shape [of a w] show ?thesis
  proof (elim disjE exE conjE)
    assume "written (fst (main a w)) = []" "writer_sizes (fst (main a w)) = []"
    then show ?thesis by simp
  next
    fix first fs f0
    assume "written (fst (main a w)) = []" and f: "fetch_at a w 0 = Inr (Some first)"
      and g: "output_size a w first = Go (fs, f0)"
      and ws: "writer_sizes (fst (main a w)) = [fs]"
    with output_size_Go [OF g] show ?thesis by simp
  next
    fix first fs f0 tr3 r3
    assume f: "fetch_at a w 0 = Inr (Some first)" and g: "output_size a w first = Go (fs, f0)"
      and t: "ticks a w fs [1 ..< nat (total_frames a)]
              \<lparr>next_tick = perf_counter w 0, last_good = f0\<rparr> = (tr3, r3)"
      and wr: "written (fst (main a w)) = f0 # written tr3"
      and ws: "writer_sizes (fst (main a w)) = [fs]"
    from output_size_Go [OF g] have d: "dims f0 = fs"
      and v: "fs = (case resize a of WxH ow oh \<Rightarrow> (ow, oh) | _ \<Rightarrow> dims first)" by simp_all
    have d': "dims (last_good \<lparr>next_tick = perf_counter w 0, last_good = f0\<rparr>) = fs"
      using d by simp
    from ticks_sizes [OF t d'] have "\<forall>img \<in> set (written tr3). dims img = fs" by simp
    then have sz: "\<forall>img \<in> set ?wr. dims img = fs" using d by (simp add: wr)
    have ff: "\<forall>first'. fetch_at a w 0 = Inr (Some first') \<longrightarrow>
         fs = (case resize a of WxH ow oh \<Rightarrow> (ow, oh) | _ \<Rightarrow> dims first') \<and>
         (?wr \<noteq> [] \<and> resize a = NoResize \<longrightarrow> ?wr ! 0 = first') \<and>
         (\<forall>ow oh. ?wr \<noteq> [] \<and> resize a = WxH ow oh \<longrightarrow>
            cv2_resize (interp w) first' (ow, oh) = Inr (?wr ! 0))"
      using first v f by auto
    from sz ff step [OF ws] show ?thesis unfolding ws by simp
  qed
qed


theorem written_frames_have_output_size_witness:
  "writer_sizes (fst (main (sample_args 2 2) (sample_world (freeze_gets [3])))) = [(2, 2)] \<and>
   dims frame_B4 = (4, 4) \<and>
   map dims (written (fst (main (sample_args 2 2) (sample_world (freeze_gets [3]))))) =
     [(2, 2), (2, 2), (2, 2), (2, 2)] \<and>
   written (fst (main (sample_args 2 2) (sample_world (freeze_gets [3])))) ! 0 = frame_A \<and>
   written (fst (main (sample_args 2 2) (sample_world (freeze_gets [3])))) ! 1 =
     written (fst (main (sample_args 2 2) (sample_world (freeze_gets [3])))) ! 0 \<and>
   cv2_resize (interp (sample_world (freeze_gets [3]))) frame_B4 (2, 2) =
     Inr (written (fst (main (sample_args 2 2) (sample_world (freeze_gets [3])))) ! 3) \<and>
   cv2_resize (interp (sample_world (freeze_gets [2]))) frame_A (4, 4) =
     Inr (written (fst (main ((sample_args 2 1)\<lparr>resize := WxH 4 4\<rparr>)
            (sample_world (freeze_gets [2])))) ! 0)"
proof -
  let ?a = "sample_args 2 2"
  let ?w = "sample_world (freeze_gets [3])"
  let ?tr = "fst (main ?a ?w)"
  let ?a4 = "(sample_args 2 1)\<lparr>resize := WxH 4 4\<rparr>"
  let ?w4 = "sample_world (freeze_gets [2])"
  let ?tr4 = "fst (main ?a4 ?w4)"
  have ws: "writer_sizes ?tr = [(2, 2)]" and n: "length (written ?tr) = 4"
    and ne: "written ?tr \<noteq> []"
    by (simp_all add: sample_run_resized)
  have r: "resize ?a = NoResize" by (simp add: sample_args_def)
  have d4: "dims frame_B4 = (4, 4)" "dims frame_B4 \<noteq> (2, 2)"
    by (simp_all add: dims_def frame_B4_def)
  note T = written_frames_have_output_size [of ?a ?w, unfolded ws]
  from T have sz: "\<forall>img \<in> set (written ?tr). dims img = (2, 2)" by simp
  then have "map dims (written ?tr) = replicate (length (written ?tr)) (2, 2)"
    by (simp add: map_replicate_const [symmetric] cong: map_cong)
  then have c1: "map dims (written ?tr) = [(2, 2), (2, 2), (2, 2), (2, 2)]"
    unfolding n by (simp add: numeral_eq_Suc)
  from T have fst0: "\<forall>first. fetch_at ?a ?w 0 = Inr (Some first) \<longrightarrow>
      (written ?tr \<noteq> [] \<and> resize ?a = NoResize \<longrightarrow> written ?tr ! 0 = first)"
    by simp
  with sample_fetches(1) [of 2 2 "[3]"] ne r have c2: "written ?tr ! 0 = frame_A" by blast
  from T have st: "\<forall>i. 0 < i \<and> i < length (written ?tr) \<longrightarrow>
         fetch_at ?a ?w i = Inr None \<and> written ?tr ! i = written ?tr ! (i - 1) \<or>
         (\<exists>frame. fetch_at ?a ?w i = Inr (Some frame) \<and>
            (dims frame = (2, 2) \<longrightarrow> written ?tr ! i = frame) \<and>
            (dims frame \<noteq> (2, 2) \<longrightarrow>
               cv2_resize (interp ?w) frame (2, 2) = Inr (written ?tr ! i)))"
    by simp
  have "(0::nat) < 1 \<and> 1 < length (written ?tr)" by (simp add: n)
  with st have "fetch_at ?a ?w 1 = Inr None \<and> written ?tr ! 1 = written ?tr ! (1 - 1) \<or>
         (\<exists>frame. fetch_at ?a ?w 1 = Inr (Some frame) \<and>
            (dims frame = (2, 2) \<longrightarrow> written ?tr ! 1 = frame) \<and>
            (dims frame \<noteq> (2, 2) \<longrightarrow>
               cv2_resize (interp ?w) frame (2, 2) = Inr (written ?tr ! 1)))"
    by blast
  then have c3: "written ?tr ! 1 = written ?tr ! 0"
    using sample_fetches(2) [of 2 2 "[3]"] by auto
  have "(0::nat) < 3 \<and> 3 < length (written ?tr)" by (simp add: n)
  with st have "fetch_at ?a ?w 3 = Inr None \<and> written ?tr ! 3 = written ?tr ! (3 - 1) \<or>
         (\<exists>frame. fetch_at ?a ?w 3 = Inr (Some frame) \<and>
            (dims frame = (2, 2) \<longrightarrow> written ?tr ! 3 = frame) \<and>
            (dims frame \<noteq> (2, 2) \<longrightarrow>
               cv2_resize (interp ?w) frame (2, 2) = Inr (written ?tr ! 3)))"
    by blast
  then have c4: "cv2_resize (interp ?w) frame_B4 (2, 2) = Inr (written ?tr ! 3)"
    using sample_fetches(5) [of 2 2] d4(2) by auto
  have ws4: "writer_sizes ?tr4 = [(4, 4)]" and ne4: "written ?tr4 \<noteq> []"
    by (simp_all add: sample_run_upscaled)
  have r4: "resize ?a4 = WxH 4 4" by simp
  have f4: "fetch_at ?a4 ?w4 0 = Inr (Some frame_A)"
    by (simp add: fetch_at_def fetch_jpeg_cases sample_world_def sample_args_def
        freeze_gets_def sample_decoder_def)
  note T4 = written_frames_have_output_size [of ?a4 ?w4, unfolded ws4]
  from T4 have "\<forall>first. fetch_at ?a4 ?w4 0 = Inr (Some first) \<longrightarrow>
      (\<forall>ow oh. written ?tr4 \<noteq> [] \<and> resize ?a4 = WxH ow oh \<longrightarrow>
            cv2_resize (interp ?w4) first (ow, oh) = Inr (written ?tr4 ! 0))"
    by simp
  with f4 ne4 r4 have c5: "cv2_resize (interp ?w4) frame_A (4, 4) = Inr (written ?tr4 ! 0)"
    by blast
  from ws d4(1) c1 c2 c3 c4 c5 show ?thesis by blast
qed











text \<open>The two ways the first fetch can fail, and how main ends in each.\<close>

lemma first_fetch_None_aborts:
  assumes "fetch_at a w 0 = Inr None"
  shows "main a w = ([Print FetchingFirst, Fetch 0, Print ErrFirstFrame], None)"
  using assms by (simp add: main_def)



end
